theory Spec2Isabelle
  imports Main
begin

unbundle bit_operations_syntax

section \<open>Sparse-compression stream scanner (examples/sparse/compress.py)\<close>

text \<open>
  The scanner reads a stream through a Python iterator. The iterator is modelled by the
  list of the items it has not yet yielded; every function returns that list next to its
  result, so that what a call consumed can be read off, also when the call raises.
  Items are Python integers (\<open>int\<close>): iterating a \<open>bytes\<close> object yields values in
  \<open>0..255\<close>, which theorems about byte streams state as a hypothesis.
\<close>

subsection \<open>Exceptions\<close>

datatype error =
    StopIteration
      \<comment> \<open>\<open>next(stream)\<close> on an exhausted iterator\<close>
  | InvalidHeader int
      \<comment> \<open>\<open>ValueError("invalid header: 0x%02x" % head)\<close>\<close>
  | NegativeValue int int
      \<comment> \<open>\<open>ValueError("read %d bytes got negative value: %d" % (n, i))\<close>\<close>
  | InvalidBlockHead int
      \<comment> \<open>\<open>ValueError("Invalid block head: 0x%02x" % head)\<close>\<close>
  | IsliceValueError
      \<comment> \<open>the \<open>ValueError\<close> of \<open>itertools.islice\<close> for an index outside \<open>0..sys.maxsize\<close>\<close>
  | AssertionError
      \<comment> \<open>\<open>assert stop\<close>\<close>

text \<open>Whether a result is the "negative value" error of \<open>read_n\<close>.\<close>

fun is_NegativeValue :: "error + 'a \<Rightarrow> bool" where
  "is_NegativeValue (Inl (NegativeValue n i)) = True"
| "is_NegativeValue _ = False"

subsection \<open>read_n\<close>

text \<open>
  The loop \<open>for j in range(n): i |= next(stream) << 8 * j\<close>: the first argument counts
  the iterations left, \<open>j\<close> is the loop index and \<open>i\<close> the accumulator.
\<close>

fun read_n_loop :: "nat \<Rightarrow> nat \<Rightarrow> int \<Rightarrow> int list \<Rightarrow> (error + int) \<times> int list" where
  "read_n_loop 0 j i stream = (Inr i, stream)"
| "read_n_loop (Suc k) j i [] = (Inl StopIteration, [])"
| "read_n_loop (Suc k) j i (b # stream) =
     read_n_loop k (Suc j) (i OR push_bit (8 * j) b) stream"

definition read_n :: "int \<Rightarrow> int list \<Rightarrow> (error + int) \<times> int list" where
  "read_n n stream =
     (case read_n_loop (nat n) 0 0 stream of
        (Inl e, stream') \<Rightarrow> (Inl e, stream')
      | (Inr i, stream') \<Rightarrow>
          if i < 0 then (Inl (NegativeValue n i), stream') else (Inr i, stream'))"

subsection \<open>sc_decode_header\<close>

definition sc_decode_header :: "int list \<Rightarrow> (error + string \<times> int) \<times> int list" where
  "sc_decode_header stream =
     (case stream of
        [] \<Rightarrow> (Inl StopIteration, [])
      | head # stream1 \<Rightarrow>
          if head AND 0xe0 \<noteq> 0 then (Inl (InvalidHeader head), stream1)
          else
            let endian = (if head AND 0x10 \<noteq> 0 then ''big'' else ''little'');
                length = head AND 0x0f
            in (case read_n length stream1 of
                  (Inl e, stream2) \<Rightarrow> (Inl e, stream2)
                | (Inr nbits, stream2) \<Rightarrow> (Inr (endian, nbits), stream2)))"

subsection \<open>The statistics dictionary\<close>

text \<open>
  \<open>collections.Counter\<close>: a dictionary whose lookup of a missing key gives 0, so that
  \<open>c[n] += 1\<close> stores \<open>c[n] + 1\<close> under \<open>n\<close> whether or not \<open>n\<close> was a key.
\<close>

type_synonym counter = "int \<rightharpoonup> int"

definition counter_get :: "counter \<Rightarrow> int \<Rightarrow> int" where
  "counter_get c n = (case c n of None \<Rightarrow> 0 | Some v \<Rightarrow> v)"

definition counter_incr :: "counter \<Rightarrow> int \<Rightarrow> counter" where
  "counter_incr c n = c(n \<mapsto> counter_get c n + 1)"

record stats =
  endian :: string
  nbits :: int
  blocks :: counter

subsection \<open>sc_decode_block\<close>

definition sys_maxsize :: int where
  \<comment> \<open>\<open>sys.maxsize\<close> of CPython on a 64-bit platform\<close>
  "sys_maxsize = 2 ^ 63 - 1"

text \<open>
  \<open>next(islice(stream, size, size), None)\<close>: \<open>islice\<close> refuses an index outside
  \<open>0..sys.maxsize\<close>; otherwise the \<open>next\<close> call pulls up to \<open>size\<close> items from the
  stream and, the slice being empty, returns the default \<open>None\<close>, also when the stream
  ended before \<open>size\<close> items.
\<close>

definition consume :: "int \<Rightarrow> int list \<Rightarrow> (error + unit) \<times> int list" where
  "consume sz stream =
     (if sz < 0 \<or> sys_maxsize < sz then (Inl IsliceValueError, stream)
      else (Inr (), drop (nat sz) stream))"

definition sc_decode_block ::
  "int list \<Rightarrow> stats \<Rightarrow> (error + bool) \<times> int list \<times> stats" where
  "sc_decode_block stream stats =
     (case stream of
        [] \<Rightarrow> (Inl StopIteration, [], stats)
      | head # stream1 \<Rightarrow>
          if head = 0 then (Inr False, stream1, stats)
          else
            (case (if head \<le> 0x80 then (Inr (0, head), stream1)
                   else if 0xa0 \<le> head \<and> head < 0xc0 then (Inr (1, head - 0xa0), stream1)
                   else if 0xc2 \<le> head \<and> head \<le> 0xc4 then
                     (case stream1 of
                        [] \<Rightarrow> (Inl StopIteration, [])
                      | k # stream2 \<Rightarrow> (Inr (head - 0xc0, k), stream2))
                   else (Inl (InvalidBlockHead head), stream1)) of
               (Inl e, stream2) \<Rightarrow> (Inl e, stream2, stats)
             | (Inr (n, k), stream2) \<Rightarrow>
                 let stats' = stats\<lparr>blocks := counter_incr (blocks stats) n\<rparr>;
                     size = max 1 n * k
                 in (case consume size stream2 of
                       (Inl e, stream3) \<Rightarrow> (Inl e, stream3, stats')
                     | (Inr u, stream3) \<Rightarrow> (Inr True, stream3, stats'))))"

subsection \<open>sc_stats\<close>

text \<open>The loop \<open>while sc_decode_block(stream, stats): pass\<close>.\<close>

function sc_stats_loop :: "int list \<Rightarrow> stats \<Rightarrow> (error + unit) \<times> int list \<times> stats" where
  "sc_stats_loop stream stats =
     (case sc_decode_block stream stats of
        (Inl e, stream', stats') \<Rightarrow> (Inl e, stream', stats')
      | (Inr True, stream', stats') \<Rightarrow> sc_stats_loop stream' stats'
      | (Inr False, stream', stats') \<Rightarrow> (Inr (), stream', stats'))"
  by pat_completeness auto
termination
  by (relation "measure (\<lambda>(stream, stats). length stream)")
     (auto simp: sc_decode_block_def consume_def Let_def
           split: list.splits if_splits prod.splits sum.splits)

declare sc_stats_loop.simps [simp del]

text \<open>
  The loop after \<open>k\<close> iterations in which \<open>sc_decode_block\<close> returned \<open>True\<close>: the
  stream and the statistics it has reached, or \<open>None\<close> when one of these iterations
  raises or reads the stop byte.
\<close>

fun sc_steps :: "nat \<Rightarrow> int list \<Rightarrow> stats \<Rightarrow> (int list \<times> stats) option" where
  "sc_steps 0 stream stats = Some (stream, stats)"
| "sc_steps (Suc k) stream stats =
     (case sc_decode_block stream stats of
        (Inr True, stream', stats') \<Rightarrow> sc_steps k stream' stats'
      | _ \<Rightarrow> None)"

definition sc_stats :: "int list \<Rightarrow> error + stats" where
  "sc_stats stream =
     (case sc_decode_header stream of
        (Inl e, stream1) \<Rightarrow> Inl e
      | (Inr (endian', nbits'), stream1) \<Rightarrow>
          let stats = \<lparr>endian = endian', nbits = nbits', blocks = Map.empty\<rparr>
          in (case sc_stats_loop stream1 stats of
                (Inl e, stream2, stats') \<Rightarrow> Inl e
              | (Inr u, stream2, stats') \<Rightarrow>
                  (case stream2 of
                     [] \<Rightarrow> Inr stats'
                   | b # stream3 \<Rightarrow> Inl AssertionError)))"

subsection \<open>The little-endian value of a byte sequence\<close>

text \<open>
  The integer the format description assigns to a length field: byte \<open>j\<close> contributes
  \<open>byte[j] << 8*j\<close>. \<open>le_value_from j bs\<close> is the contribution of the bytes \<open>bs\<close> when
  the first of them has index \<open>j\<close>.
\<close>

fun le_value_from :: "nat \<Rightarrow> int list \<Rightarrow> int" where
  "le_value_from j [] = 0"
| "le_value_from j (b # bs) = push_bit (8 * j) b + le_value_from (Suc j) bs"

definition le_value :: "int list \<Rightarrow> int" where
  "le_value bs = le_value_from 0 bs"

definition is_byte :: "int \<Rightarrow> bool" where
  "is_byte b \<longleftrightarrow> 0 \<le> b \<and> b \<le> 255"

subsection \<open>The payload size a block head declares\<close>

text \<open>
  The payload size of the format description, from the head byte and, for the two-byte
  heads \<open>0xC2..0xC4\<close>, the count byte that follows it.
\<close>

definition payload_size :: "int \<Rightarrow> int \<Rightarrow> int" where
  "payload_size head count =
     (if 1 \<le> head \<and> head \<le> 0x80 then head
      else if 0xa0 \<le> head \<and> head < 0xc0 then head - 0xa0
      else if 0xc2 \<le> head \<and> head \<le> 0xc4 then (head - 0xc0) * count
      else 0)"

subsection \<open>The block types of a block sequence\<close>

text \<open>
  The wire layout of the format description: a block sequence is \<open>block* 0x00\<close>, a
  block is a head byte in \<open>1..0x80\<close> (type 0), in \<open>0xA0..0xBF\<close> (type 1) or in
  \<open>0xC2..0xC4\<close> followed by a count byte (type \<open>head - 0xC0\<close>), and then its payload.
  \<open>block_types\<close> lists the types of the blocks of a stream in order, up to the first
  byte that is no block head.
\<close>

definition is_block_head :: "int \<Rightarrow> bool" where
  "is_block_head head \<longleftrightarrow>
     1 \<le> head \<and> head \<le> 0x80 \<or> 0xa0 \<le> head \<and> head \<le> 0xbf \<or> 0xc2 \<le> head \<and> head \<le> 0xc4"

definition block_type :: "int \<Rightarrow> int" where
  "block_type head =
     (if 1 \<le> head \<and> head \<le> 0x80 then 0
      else if 0xa0 \<le> head \<and> head \<le> 0xbf then 1
      else head - 0xc0)"

function block_types :: "int list \<Rightarrow> int list" where
  "block_types [] = []"
| "block_types (head # rest) =
     (if \<not> is_block_head head then []
      else if 0xc2 \<le> head then
        (case rest of
           [] \<Rightarrow> []
         | count # payload \<Rightarrow>
             block_type head # block_types (drop (nat (payload_size head count)) payload))
      else block_type head # block_types (drop (nat (payload_size head 0)) rest))"
  by pat_completeness auto
termination
  by (relation "measure length") auto

section \<open>Properties\<close>

subsection \<open>Auxiliary facts\<close>

lemma or_push_bit_eq_add:
  fixes i b :: int
  assumes "0 \<le> i" and "i < 2 ^ n"
  shows "i OR push_bit n b = i + push_bit n b"
proof -
  from assms have "take_bit n i = i"
    by (simp add: take_bit_int_eq_self)
  then have "\<not> bit i m" if "n \<le> m" for m
    using that by (metis bit_take_bit_iff not_le)
  then have "i AND push_bit n b = 0"
    by (auto simp: bit_eq_iff bit_and_iff bit_push_bit_iff)
  then show ?thesis
    by (simp add: disjunctive_add_eq_or)
qed

lemma le_value_from_nonneg:
  "\<forall>b\<in>set bs. 0 \<le> b \<Longrightarrow> 0 \<le> le_value_from j bs"
  by (induction bs arbitrary: j) simp_all

lemma le_value_from_upper:
  "\<forall>b\<in>set bs. is_byte b \<Longrightarrow> le_value_from j bs + 2 ^ (8 * j) \<le> 2 ^ (8 * (j + length bs))"
proof (induction bs arbitrary: j)
  case Nil
  then show ?case by simp
next
  case (Cons b bs)
  then have "b \<le> 255"
    by (simp add: is_byte_def)
  then have "push_bit (8 * j) b + 2 ^ (8 * j) \<le> (2 :: int) ^ (8 * Suc j)"
    by (simp add: push_bit_eq_mult power_add)
  moreover have "le_value_from (Suc j) bs + 2 ^ (8 * Suc j) \<le> 2 ^ (8 * (Suc j + length bs))"
    using Cons.prems by (intro Cons.IH) simp
  ultimately show ?case
    by simp
qed

lemma read_n_loop_short:
  "length stream < k \<Longrightarrow> read_n_loop k j i stream = (Inl StopIteration, [])"
  by (induction k j i stream rule: read_n_loop.induct) simp_all

lemma read_n_loop_error:
  "read_n_loop k j i stream = (Inl e, stream') \<Longrightarrow> e = StopIteration"
  by (induction k j i stream rule: read_n_loop.induct) simp_all

lemma read_n_loop_nonneg:
  "read_n_loop k j i stream = (Inr v, stream') \<Longrightarrow> \<forall>b\<in>set stream. 0 \<le> b \<Longrightarrow> 0 \<le> i \<Longrightarrow> 0 \<le> v"
  by (induction k j i stream rule: read_n_loop.induct) simp_all

lemma read_n_loop_bytes:
  "k \<le> length stream \<Longrightarrow> \<forall>b\<in>set (take k stream). is_byte b \<Longrightarrow> 0 \<le> i \<Longrightarrow> i < 2 ^ (8 * j) \<Longrightarrow>
   read_n_loop k j i stream = (Inr (i + le_value_from j (take k stream)), drop k stream)"
proof (induction k j i stream rule: read_n_loop.induct)
  case (1 j i stream)
  then show ?case by simp
next
  case (2 k j i)
  then show ?case by simp
next
  case (3 k j i b stream)
  from "3.prems" have b: "0 \<le> b" "b \<le> 255"
    by (simp_all add: is_byte_def)
  let ?i = "i OR push_bit (8 * j) b"
  have eq: "?i = i + push_bit (8 * j) b"
    using "3.prems" by (simp add: or_push_bit_eq_add)
  have "push_bit (8 * j) b \<le> 255 * 2 ^ (8 * j)"
    using b by (simp add: push_bit_eq_mult)
  with "3.prems" have up: "?i < 2 ^ (8 * Suc j)"
    by (simp add: eq power_add)
  have lo: "0 \<le> ?i"
    using "3.prems" b by simp
  have "read_n_loop k (Suc j) ?i stream =
        (Inr (?i + le_value_from (Suc j) (take k stream)), drop k stream)"
    using "3.prems" lo up by (intro "3.IH") simp_all
  then show ?case
    by (simp add: eq)
qed

lemma read_n_short:
  "length stream < nat n \<Longrightarrow> read_n n stream = (Inl StopIteration, [])"
  by (simp add: read_n_def read_n_loop_short)

lemma read_n_value:
  assumes "nat n \<le> length stream" and "\<forall>b\<in>set (take (nat n) stream). is_byte b"
  shows "read_n n stream = (Inr (le_value (take (nat n) stream)), drop (nat n) stream)"
proof -
  have "\<forall>b\<in>set (take (nat n) stream). 0 \<le> b"
    using assms(2) by (simp add: is_byte_def)
  then have "0 \<le> le_value_from 0 (take (nat n) stream)"
    by (rule le_value_from_nonneg)
  moreover have "read_n_loop (nat n) 0 0 stream =
      (Inr (0 + le_value_from 0 (take (nat n) stream)), drop (nat n) stream)"
    using assms by (intro read_n_loop_bytes) simp_all
  ultimately show ?thesis
    by (simp add: read_n_def le_value_def)
qed

lemma and_16_iff_bit: "k AND 0x10 \<noteq> 0 \<longleftrightarrow> bit k 4" for k :: int
  using and_exp_eq_0_iff_not_bit [of k 4] by simp

lemma nibble_and:
  fixes n :: nat
  assumes "n \<le> 15"
  shows "int n AND 0xe0 = 0" and "int n AND 0x0f = int n" and "int n AND 0x10 = 0"
    and "(0x10 + int n) AND 0xe0 = 0" and "(0x10 + int n) AND 0x0f = int n"
    and "(0x10 + int n) AND 0x10 \<noteq> 0"
proof -
  from assms have "n \<in> {0, 1, 2, 3, 4, 5, 6, 7, 8, 9, 10, 11, 12, 13, 14, 15}"
    by simp arith
  then show "int n AND 0xe0 = 0" and "int n AND 0x0f = int n" and "int n AND 0x10 = 0"
    and "(0x10 + int n) AND 0xe0 = 0" and "(0x10 + int n) AND 0x0f = int n"
    and "(0x10 + int n) AND 0x10 \<noteq> 0"
    by auto
qed

lemma counter_get_incr:
  "counter_get (counter_incr c n) t = counter_get c t + (if t = n then 1 else 0)"
  by (simp add: counter_get_def counter_incr_def)

lemma consume_ok:
  "0 \<le> sz \<Longrightarrow> sz \<le> 1020 \<Longrightarrow> consume sz stream = (Inr (), drop (nat sz) stream)"
  by (simp add: consume_def sys_maxsize_def)

lemma sc_decode_block_stop:
  "sc_decode_block (0 # stream) stats = (Inr False, stream, stats)"
  by (simp add: sc_decode_block_def)

lemma sc_decode_block_raw:
  "1 \<le> head \<Longrightarrow> head \<le> 0x80 \<Longrightarrow>
   sc_decode_block (head # stream) stats =
     (Inr True, drop (nat head) stream, stats\<lparr>blocks := counter_incr (blocks stats) 0\<rparr>)"
  by (simp add: sc_decode_block_def consume_ok)

lemma sc_decode_block_pos1:
  "0xa0 \<le> head \<Longrightarrow> head \<le> 0xbf \<Longrightarrow>
   sc_decode_block (head # stream) stats =
     (Inr True, drop (nat (head - 0xa0)) stream,
      stats\<lparr>blocks := counter_incr (blocks stats) 1\<rparr>)"
  by (simp add: sc_decode_block_def consume_ok)

lemma sc_decode_block_posn:
  assumes "0xc2 \<le> head" and "head \<le> 0xc4" and "is_byte count"
  shows "sc_decode_block (head # count # stream) stats =
     (Inr True, drop (nat ((head - 0xc0) * count)) stream,
      stats\<lparr>blocks := counter_incr (blocks stats) (head - 0xc0)\<rparr>)"
proof -
  from assms have c: "0 \<le> count" "count \<le> 255"
    by (simp_all add: is_byte_def)
  from assms(1,2) have "head = 0xc2 \<or> head = 0xc3 \<or> head = 0xc4"
    by arith
  then have "0 \<le> (head - 0xc0) * count \<and> (head - 0xc0) * count \<le> 1020"
    using c by auto
  then have "consume ((head - 0xc0) * count) stream =
      (Inr (), drop (nat ((head - 0xc0) * count)) stream)"
    by (simp add: consume_ok)
  with assms(1,2) show ?thesis
    by (simp add: sc_decode_block_def)
qed

lemma sc_decode_block_reserved:
  "0x81 \<le> head \<and> head \<le> 0x9f \<or> 0xc0 \<le> head \<and> head \<le> 0xc1 \<or>
   0xc5 \<le> head \<Longrightarrow>
   sc_decode_block (head # stream) stats = (Inl (InvalidBlockHead head), stream, stats)"
  by (auto simp: sc_decode_block_def)

lemma ex_prefix_drop1: "\<exists>pre. x # xs = pre @ drop m xs"
  by (metis append_Cons append_take_drop_id)

lemma ex_prefix_drop2: "\<exists>pre. x # y # xs = pre @ drop m xs"
  by (metis append_Cons append_take_drop_id)

lemma sc_decode_block_False:
  "sc_decode_block stream stats = (Inr False, stream', stats') \<Longrightarrow>
   stream = 0 # stream' \<and> stats' = stats"
  by (auto simp: sc_decode_block_def consume_def Let_def
           split: list.splits if_splits prod.splits sum.splits)

lemma sc_decode_block_True:
  "sc_decode_block stream stats = (Inr True, stream', stats') \<Longrightarrow>
   (\<exists>pre. stream = pre @ stream') \<and> endian stats' = endian stats \<and> nbits stats' = nbits stats"
  by (auto simp: sc_decode_block_def consume_def Let_def ex_prefix_drop1 ex_prefix_drop2
           split: list.splits if_splits prod.splits sum.splits)

lemma sc_stats_loop_returns:
  "sc_stats_loop stream stats = (Inr u, stream', stats') \<Longrightarrow>
   (\<exists>blks. stream = blks @ 0 # stream') \<and> endian stats' = endian stats \<and> nbits stats' = nbits stats"
proof (induction stream stats rule: sc_stats_loop.induct)
  case (1 stream stats)
  obtain r s1 st1 where step: "sc_decode_block stream stats = (r, s1, st1)"
    by (cases "sc_decode_block stream stats") auto
  show ?case
  proof (cases r)
    case (Inl e)
    with step "1.prems" show ?thesis
      by (simp add: sc_stats_loop.simps [of stream stats])
  next
    case (Inr b)
    show ?thesis
    proof (cases b)
      case True
      with step Inr "1.prems" have loop: "sc_stats_loop s1 st1 = (Inr u, stream', stats')"
        by (simp add: sc_stats_loop.simps [of stream stats])
      from step Inr True have ih:
        "(\<exists>blks. s1 = blks @ 0 # stream') \<and> endian stats' = endian st1 \<and> nbits stats' = nbits st1"
        using loop by (intro "1.IH") simp_all
      from step Inr True have
        "(\<exists>pre. stream = pre @ s1) \<and> endian st1 = endian stats \<and> nbits st1 = nbits stats"
        by (intro sc_decode_block_True) simp
      with ih show ?thesis
        by (metis append.assoc)
    next
      case False
      with step Inr "1.prems" have "s1 = stream'" "st1 = stats'"
        by (simp_all add: sc_stats_loop.simps [of stream stats])
      with step Inr False have "stream = 0 # stream' \<and> stats' = stats"
        by (intro sc_decode_block_False) simp
      then show ?thesis
        by (metis append_Nil)
    qed
  qed
qed

lemma sc_steps_loop:
  "sc_steps k stream0 stats0 = Some (stream, stats) \<Longrightarrow>
   sc_stats_loop stream0 stats0 = sc_stats_loop stream stats"
proof (induction k arbitrary: stream0 stats0)
  case 0
  then show ?case by simp
next
  case (Suc k)
  then obtain s1 st1 where step: "sc_decode_block stream0 stats0 = (Inr True, s1, st1)"
    and rest: "sc_steps k s1 st1 = Some (stream, stats)"
    by (auto split: prod.splits sum.splits bool.splits if_splits)
  from step have "sc_stats_loop stream0 stats0 = sc_stats_loop s1 st1"
    by (simp add: sc_stats_loop.simps [of stream0 stats0])
  with rest show ?case
    by (simp add: Suc.IH)
qed

lemma sc_decode_block_True_type:
  assumes "sc_decode_block stream stats = (Inr True, stream', stats')"
  shows "\<exists>n. block_types stream = n # block_types stream' \<and>
             stats' = stats\<lparr>blocks := counter_incr (blocks stats) n\<rparr>"
  using assms
  by (auto simp: sc_decode_block_def consume_def Let_def is_block_head_def block_type_def
        payload_size_def
      split: list.splits if_splits prod.splits sum.splits)

lemma sc_stats_loop_counts:
  "sc_stats_loop stream stats = (Inr u, stream', stats') \<Longrightarrow>
   counter_get (blocks stats') t =
     counter_get (blocks stats) t + int (count_list (block_types stream) t)"
proof (induction stream stats rule: sc_stats_loop.induct)
  case (1 stream stats)
  obtain r s1 st1 where step: "sc_decode_block stream stats = (r, s1, st1)"
    by (cases "sc_decode_block stream stats") auto
  show ?case
  proof (cases r)
    case (Inl e)
    with step "1.prems" show ?thesis
      by (simp add: sc_stats_loop.simps [of stream stats])
  next
    case (Inr b)
    show ?thesis
    proof (cases b)
      case True
      with step Inr "1.prems" have loop: "sc_stats_loop s1 st1 = (Inr u, stream', stats')"
        by (simp add: sc_stats_loop.simps [of stream stats])
      from step Inr True have ih: "counter_get (blocks stats') t =
          counter_get (blocks st1) t + int (count_list (block_types s1) t)"
        using loop by (intro "1.IH") simp_all
      from step Inr True obtain n where n: "block_types stream = n # block_types s1"
        "st1 = stats\<lparr>blocks := counter_incr (blocks stats) n\<rparr>"
        using sc_decode_block_True_type [of stream stats s1 st1] by auto
      show ?thesis
        by (simp add: ih n counter_get_incr)
    next
      case False
      with step Inr "1.prems" have "s1 = stream'" "st1 = stats'"
        by (simp_all add: sc_stats_loop.simps [of stream stats])
      with step Inr False have "stream = 0 # stream' \<and> stats' = stats"
        by (intro sc_decode_block_False) simp
      then show ?thesis
        by (simp add: is_block_head_def)
    qed
  qed
qed

subsection \<open>Block decoding\<close>

text \<open>
  Claim C1. One call of \<open>sc_decode_block\<close> classifies the head byte: \<open>0x00\<close> is the
  stop byte, with nothing skipped and nothing tallied; \<open>1..0x80\<close> is a block of type 0
  whose payload is \<open>head\<close> bytes; \<open>0xA0..0xBF\<close> is a block of type 1 whose payload is
  \<open>head - 0xA0\<close> bytes; \<open>0xC2..0xC4\<close> is a block of type \<open>head - 0xC0\<close> that reads one
  count byte and whose payload is \<open>(head - 0xC0) * count\<close> bytes; every other byte value is
  refused. Each block adds exactly one to the tally of its own type and leaves the other
  tallies as they were.
\<close>

theorem sc_decode_block_classifies:
  "(head = 0 \<longrightarrow> sc_decode_block (head # stream) stats = (Inr False, stream, stats)) \<and>
   (1 \<le> head \<and> head \<le> 0x80 \<longrightarrow>
      sc_decode_block (head # stream) stats =
        (Inr True, drop (nat head) stream,
         stats\<lparr>blocks := counter_incr (blocks stats) 0\<rparr>)) \<and>
   (0xa0 \<le> head \<and> head \<le> 0xbf \<longrightarrow>
      sc_decode_block (head # stream) stats =
        (Inr True, drop (nat (head - 0xa0)) stream,
         stats\<lparr>blocks := counter_incr (blocks stats) 1\<rparr>)) \<and>
   (0xc2 \<le> head \<and> head \<le> 0xc4 \<and> is_byte count \<longrightarrow>
      sc_decode_block (head # count # stream) stats =
        (Inr True, drop (nat ((head - 0xc0) * count)) stream,
         stats\<lparr>blocks := counter_incr (blocks stats) (head - 0xc0)\<rparr>)) \<and>
   (is_byte head \<and> head \<noteq> 0 \<and> \<not> (1 \<le> head \<and> head \<le> 0x80) \<and>
    \<not> (0xa0 \<le> head \<and> head \<le> 0xbf) \<and> \<not> (0xc2 \<le> head \<and> head \<le> 0xc4) \<longrightarrow>
      sc_decode_block (head # stream) stats = (Inl (InvalidBlockHead head), stream, stats)) \<and>
   (\<forall>t. counter_get (counter_incr (blocks stats) n) t =
          counter_get (blocks stats) t + (if t = n then 1 else 0))"
proof (intro conjI impI allI)
  assume "is_byte head \<and> head \<noteq> 0 \<and> \<not> (1 \<le> head \<and> head \<le> 0x80) \<and>
    \<not> (0xa0 \<le> head \<and> head \<le> 0xbf) \<and> \<not> (0xc2 \<le> head \<and> head \<le> 0xc4)"
  then have "0x81 \<le> head \<and> head \<le> 0x9f \<or> 0xc0 \<le> head \<and> head \<le> 0xc1 \<or> 0xc5 \<le> head"
    unfolding is_byte_def by arith
  then show "sc_decode_block (head # stream) stats = (Inl (InvalidBlockHead head), stream, stats)"
    by (rule sc_decode_block_reserved)
qed (simp_all add: sc_decode_block_stop sc_decode_block_raw sc_decode_block_pos1
       sc_decode_block_posn counter_get_incr)

theorem sc_decode_block_classifies_witness:
  "sc_decode_block [0, 5] \<lparr>endian = ''little'', nbits = 16, blocks = Map.empty\<rparr> =
     (Inr False, [5], \<lparr>endian = ''little'', nbits = 16, blocks = Map.empty\<rparr>) \<and>
   sc_decode_block [2, 7, 8, 9] \<lparr>endian = ''little'', nbits = 16, blocks = Map.empty\<rparr> =
     (Inr True, [9], \<lparr>endian = ''little'', nbits = 16, blocks = counter_incr Map.empty 0\<rparr>) \<and>
   sc_decode_block [0xa1, 7, 8] \<lparr>endian = ''little'', nbits = 16, blocks = Map.empty\<rparr> =
     (Inr True, [8], \<lparr>endian = ''little'', nbits = 16, blocks = counter_incr Map.empty 1\<rparr>) \<and>
   is_byte 2 \<and>
   sc_decode_block [0xc3, 2, 1, 2, 3, 4, 5, 6, 7] \<lparr>endian = ''little'', nbits = 16, blocks = Map.empty\<rparr> =
     (Inr True, [7], \<lparr>endian = ''little'', nbits = 16, blocks = counter_incr Map.empty 3\<rparr>) \<and>
   is_byte 0x90 \<and>
   sc_decode_block [0x90, 1] \<lparr>endian = ''little'', nbits = 16, blocks = Map.empty\<rparr> =
     (Inl (InvalidBlockHead 0x90), [1], \<lparr>endian = ''little'', nbits = 16, blocks = Map.empty\<rparr>) \<and>
   counter_get (counter_incr Map.empty 3) 3 = 1 \<and>
   counter_get (counter_incr Map.empty 3) 0 = 0"
  using
    sc_decode_block_classifies [of 0 "[5]" "\<lparr>endian = ''little'', nbits = 16, blocks = Map.empty\<rparr>" 0 3]
    sc_decode_block_classifies [of 2 "[7, 8, 9]" "\<lparr>endian = ''little'', nbits = 16, blocks = Map.empty\<rparr>" 0 3]
    sc_decode_block_classifies [of "0xa1" "[7, 8]" "\<lparr>endian = ''little'', nbits = 16, blocks = Map.empty\<rparr>" 0 3]
    sc_decode_block_classifies [of "0xc3" "[1, 2, 3, 4, 5, 6, 7]" "\<lparr>endian = ''little'', nbits = 16, blocks = Map.empty\<rparr>" 2 3]
    sc_decode_block_classifies [of "0x90" "[1]" "\<lparr>endian = ''little'', nbits = 16, blocks = Map.empty\<rparr>" 0 3]
  by (simp add: is_byte_def counter_get_def)

text \<open>
  Claim C3, as amended. When the head byte, and for \<open>0xC2..0xC4\<close> the count byte, declare
  a payload of \<open>payload_size\<close> bytes, \<open>sc_decode_block\<close> returns \<open>True\<close> with the stream
  advanced past exactly \<open>payload_size\<close> payload bytes when that many remain. When fewer
  remain it takes all of them and still returns \<open>True\<close>, with no error at that point;
  the scanning loop then ends in \<open>StopIteration\<close>, raised when its next step reads a head
  byte from the exhausted stream, and so does the whole scan: \<open>sc_stats\<close> fails with
  \<open>StopIteration\<close> on every stream whose header decodes and whose block loop, after any
  number of complete blocks, arrives at such a block.
\<close>

theorem sc_decode_block_skips_payload:
  assumes "1 \<le> head \<and> head \<le> 0x80 \<or> 0xa0 \<le> head \<and> head \<le> 0xbf \<or>
           0xc2 \<le> head \<and> head \<le> 0xc4"
      and "is_byte count"
      and "stream = (if 0xc2 \<le> head then head # count # payload else head # payload)"
  shows "fst (sc_decode_block stream stats) = Inr True \<and>
         fst (snd (sc_decode_block stream stats)) = drop (nat (payload_size head count)) payload \<and>
         (length payload < nat (payload_size head count) \<longrightarrow>
            sc_stats_loop stream stats =
              (Inl StopIteration, [], snd (snd (sc_decode_block stream stats))) \<and>
            (sc_decode_header full = (Inr (e, n), stream0) \<and>
             sc_steps k stream0 \<lparr>endian = e, nbits = n, blocks = Map.empty\<rparr> =
               Some (stream, stats) \<longrightarrow>
             sc_stats full = Inl StopIteration))"
proof -
  obtain stats' where step:
    "sc_decode_block stream stats = (Inr True, drop (nat (payload_size head count)) payload, stats')"
    using assms
    by (auto simp: payload_size_def sc_decode_block_raw sc_decode_block_pos1 sc_decode_block_posn)
  have loop: "sc_stats_loop stream stats = (Inl StopIteration, [], stats')"
    if "length payload < nat (payload_size head count)"
    using that step
    by (simp add: sc_stats_loop.simps [of stream] sc_stats_loop.simps [of "[]"] sc_decode_block_def)
  have scan: "sc_stats full = Inl StopIteration"
    if short: "length payload < nat (payload_size head count)"
      and hdr: "sc_decode_header full = (Inr (e, n), stream0)"
      and reach: "sc_steps k stream0 \<lparr>endian = e, nbits = n, blocks = Map.empty\<rparr> =
        Some (stream, stats)"
  proof -
    have "sc_stats_loop stream0 \<lparr>endian = e, nbits = n, blocks = Map.empty\<rparr> =
        sc_stats_loop stream stats"
      using reach by (rule sc_steps_loop)
    with loop [OF short] hdr show ?thesis
      by (simp add: sc_stats_def)
  qed
  from step loop scan show ?thesis
    by simp
qed

theorem sc_decode_block_skips_payload_witness:
  "is_byte 2 \<and>
   fst (sc_decode_block [0xc2, 2, 1, 2, 3, 4, 5, 6] \<lparr>endian = ''little'', nbits = 16, blocks = Map.empty\<rparr>) = Inr True \<and>
   fst (snd (sc_decode_block [0xc2, 2, 1, 2, 3, 4, 5, 6] \<lparr>endian = ''little'', nbits = 16, blocks = Map.empty\<rparr>)) = [5, 6] \<and>
   payload_size 0xc2 2 = 4 \<and>
   fst (sc_decode_block [0xc2, 2, 1, 2, 3] \<lparr>endian = ''little'', nbits = 16, blocks = counter_incr Map.empty 0\<rparr>) = Inr True \<and>
   fst (sc_stats_loop [0xc2, 2, 1, 2, 3] \<lparr>endian = ''little'', nbits = 16, blocks = counter_incr Map.empty 0\<rparr>) = Inl StopIteration \<and>
   sc_steps 1 [2, 255, 255, 0xc2, 2, 1, 2, 3] \<lparr>endian = ''little'', nbits = 16, blocks = Map.empty\<rparr> =
     Some ([0xc2, 2, 1, 2, 3], \<lparr>endian = ''little'', nbits = 16, blocks = counter_incr Map.empty 0\<rparr>) \<and>
   sc_stats [0x01, 16, 2, 255, 255, 0xc2, 2, 1, 2, 3] = Inl StopIteration"
proof -
  let ?st0 = "\<lparr>endian = ''little'', nbits = 16, blocks = Map.empty\<rparr>"
  let ?st1 = "\<lparr>endian = ''little'', nbits = 16, blocks = counter_incr Map.empty 0\<rparr>"
  have b: "is_byte 2"
    by (simp add: is_byte_def)
  have r: "0xc2 \<le> (0xc2 :: int) \<and> (0xc2 :: int) \<le> 0xc4"
    by simp
  have p: "payload_size 0xc2 2 = 4"
    by (simp add: payload_size_def)
  have h: "sc_decode_header [0x01, 16, 2, 255, 255, 0xc2, 2, 1, 2, 3] =
      (Inr (''little'', 16), [2, 255, 255, 0xc2, 2, 1, 2, 3])"
    by (simp add: sc_decode_header_def read_n_def)
  have b1: "sc_decode_block [2, 255, 255, 0xc2, 2, 1, 2, 3] ?st0 = (Inr True, [0xc2, 2, 1, 2, 3], ?st1)"
    by (simp add: sc_decode_block_raw)
  have "sc_steps (Suc 0) [2, 255, 255, 0xc2, 2, 1, 2, 3] ?st0 = Some ([0xc2, 2, 1, 2, 3], ?st1)"
    by (simp add: b1)
  then have k: "sc_steps 1 [2, 255, 255, 0xc2, 2, 1, 2, 3] ?st0 = Some ([0xc2, 2, 1, 2, 3], ?st1)"
    by simp
  note full = sc_decode_block_skips_payload [of "0xc2" 2 "[0xc2, 2, 1, 2, 3, 4, 5, 6]"
      "[1, 2, 3, 4, 5, 6]" ?st0]
  note short = sc_decode_block_skips_payload [of "0xc2" 2 "[0xc2, 2, 1, 2, 3]" "[1, 2, 3]" ?st1
      "[0x01, 16, 2, 255, 255, 0xc2, 2, 1, 2, 3]" "''little''" 16 "[2, 255, 255, 0xc2, 2, 1, 2, 3]" 1]
  have f1: "fst (sc_decode_block [0xc2, 2, 1, 2, 3, 4, 5, 6] ?st0) = Inr True \<and>
      fst (snd (sc_decode_block [0xc2, 2, 1, 2, 3, 4, 5, 6] ?st0)) = [5, 6]"
    using full b p by simp
  have f2: "fst (sc_decode_block [0xc2, 2, 1, 2, 3] ?st1) = Inr True \<and>
      fst (sc_stats_loop [0xc2, 2, 1, 2, 3] ?st1) = Inl StopIteration \<and>
      sc_stats [0x01, 16, 2, 255, 255, 0xc2, 2, 1, 2, 3] = Inl StopIteration"
    using short b p h k by simp
  from b p k f1 f2 show ?thesis
    by simp
qed

text \<open>
  Claim C3 as stated fails: the head byte \<open>0x02\<close> declares two payload bytes; on the
  stream \<open>[0x02, 7]\<close>, where one remains, the step returns \<open>True\<close> and leaves the stream
  empty instead of failing.
\<close>

theorem sc_decode_block_short_payload_counterexample:
  "payload_size 0x02 0 = 2 \<and>
   fst (sc_decode_block [0x02, 7] \<lparr>endian = ''little'', nbits = 16, blocks = Map.empty\<rparr>) = Inr True \<and>
   fst (snd (sc_decode_block [0x02, 7] \<lparr>endian = ''little'', nbits = 16, blocks = Map.empty\<rparr>)) = []"
  by (simp add: payload_size_def sc_decode_block_raw)

text \<open>
  Claim C7. A head byte in one of the reserved ranges \<open>0x81..0x9F\<close>, \<open>0xC0..0xC1\<close> and
  \<open>0xC5..0xFF\<close> makes \<open>sc_decode_block\<close> raise the invalid-block-head error carrying that
  byte; the statistics are unchanged and the stream stands right behind the head byte.
\<close>

theorem sc_decode_block_invalid_head:
  assumes "0x81 \<le> head \<and> head \<le> 0x9f \<or> 0xc0 \<le> head \<and> head \<le> 0xc1 \<or>
           0xc5 \<le> head \<and> head \<le> 0xff"
  shows "sc_decode_block (head # stream) stats = (Inl (InvalidBlockHead head), stream, stats)"
  using assms by (intro sc_decode_block_reserved) auto

theorem sc_decode_block_invalid_head_witness:
  "sc_decode_block [0x81, 1, 2] \<lparr>endian = ''big'', nbits = 9, blocks = Map.empty\<rparr> =
     (Inl (InvalidBlockHead 0x81), [1, 2], \<lparr>endian = ''big'', nbits = 9, blocks = Map.empty\<rparr>) \<and>
   sc_decode_block [0xc1, 1, 2] \<lparr>endian = ''big'', nbits = 9, blocks = Map.empty\<rparr> =
     (Inl (InvalidBlockHead 0xc1), [1, 2], \<lparr>endian = ''big'', nbits = 9, blocks = Map.empty\<rparr>) \<and>
   sc_decode_block [0xff, 1, 2] \<lparr>endian = ''big'', nbits = 9, blocks = Map.empty\<rparr> =
     (Inl (InvalidBlockHead 0xff), [1, 2], \<lparr>endian = ''big'', nbits = 9, blocks = Map.empty\<rparr>)"
  using
    sc_decode_block_invalid_head [of "0x81" "[1, 2]" "\<lparr>endian = ''big'', nbits = 9, blocks = Map.empty\<rparr>"]
    sc_decode_block_invalid_head [of "0xc1" "[1, 2]" "\<lparr>endian = ''big'', nbits = 9, blocks = Map.empty\<rparr>"]
    sc_decode_block_invalid_head [of "0xff" "[1, 2]" "\<lparr>endian = ''big'', nbits = 9, blocks = Map.empty\<rparr>"]
  by simp

subsection \<open>Header decoding\<close>

text \<open>
  Claim C4, as amended. When the top three bits of the header byte are clear and the
  stream holds fewer bytes than the length nibble announces, \<open>sc_decode_header\<close> ends in
  \<open>StopIteration\<close>, raised by \<open>next\<close> on the exhausted iterator, with the whole stream
  consumed; it is not the "negative value" error of \<open>read_n\<close>.
\<close>

theorem sc_decode_header_truncated:
  assumes "head AND 0xe0 = 0" and "length stream < nat (head AND 0x0f)"
  shows "sc_decode_header (head # stream) = (Inl StopIteration, []) \<and>
         \<not> is_NegativeValue (fst (sc_decode_header (head # stream)))"
  using assms by (simp add: sc_decode_header_def read_n_short)

theorem sc_decode_header_truncated_witness:
  "(0x02 :: int) AND 0xe0 = 0 \<and> length [0x10 :: int] < nat (0x02 AND 0x0f) \<and>
   sc_decode_header [0x02, 0x10] = (Inl StopIteration, [])"
  using sc_decode_header_truncated [of "0x02" "[0x10]"] by simp

text \<open>
  Claim C4 as stated fails: for the stream \<open>[0x01]\<close>, whose length nibble is 1 and which
  holds no length byte, the error is \<open>StopIteration\<close> and not the negative-value error.
\<close>

theorem sc_decode_header_truncated_counterexample:
  "fst (sc_decode_header [0x01]) = Inl StopIteration \<and>
   \<not> is_NegativeValue (fst (sc_decode_header [0x01]))"
  by (simp add: sc_decode_header_def read_n_def)

text \<open>
  Claim C5. When the top three bits of the first byte \<open>head\<close> are clear and the
  \<open>L = head & 0x0F\<close> bytes that follow are present, \<open>sc_decode_header\<close> returns
  \<open>'big'\<close> exactly when bit 4 of \<open>head\<close> is set and \<open>'little'\<close> otherwise, together
  with the little-endian integer of those \<open>L\<close> bytes, and leaves the stream just behind
  them. For \<open>L = 0\<close> the length is 0 and no length byte is consumed.
\<close>

theorem sc_decode_header_value:
  assumes "head AND 0xe0 = 0"
      and "nat (head AND 0x0f) \<le> length stream"
      and "\<forall>b\<in>set (take (nat (head AND 0x0f)) stream). is_byte b"
  shows "sc_decode_header (head # stream) =
           (Inr (if bit head 4 then ''big'' else ''little'',
                 le_value (take (nat (head AND 0x0f)) stream)),
            drop (nat (head AND 0x0f)) stream) \<and>
         (head AND 0x0f = 0 \<longrightarrow>
            sc_decode_header (head # stream) =
              (Inr (if bit head 4 then ''big'' else ''little'', 0), stream))"
proof -
  have "read_n (head AND 0x0f) stream =
          (Inr (le_value (take (nat (head AND 0x0f)) stream)), drop (nat (head AND 0x0f)) stream)"
    using assms(2,3) by (rule read_n_value)
  with assms(1) have "sc_decode_header (head # stream) =
           (Inr (if bit head 4 then ''big'' else ''little'',
                 le_value (take (nat (head AND 0x0f)) stream)),
            drop (nat (head AND 0x0f)) stream)"
    by (simp add: sc_decode_header_def and_16_iff_bit)
  then show ?thesis
    by (simp add: le_value_def)
qed

theorem sc_decode_header_value_witness:
  "(0x12 :: int) AND 0xe0 = 0 \<and> nat (0x12 AND 0x0f) \<le> length [0x10, 0x27, 9 :: int] \<and>
   is_byte 0x10 \<and> is_byte 0x27 \<and>
   sc_decode_header [0x12, 0x10, 0x27, 9] = (Inr (''big'', 10000), [9])"
proof -
  have a: "(0x12 :: int) AND 0xe0 = 0"
    by simp
  have l: "nat (0x12 AND 0x0f) \<le> length [0x10, 0x27, 9 :: int]"
    by simp
  have b: "\<forall>b\<in>set (take (nat (0x12 AND 0x0f)) [0x10, 0x27, 9 :: int]). is_byte b"
    by (simp add: is_byte_def)
  have v: "le_value [0x10, 0x27] = 10000"
    by (simp add: le_value_def)
  have "sc_decode_header [0x12, 0x10, 0x27, 9] = (Inr (''big'', 10000), [9])"
    using sc_decode_header_value [OF a l b] v by (simp add: bit_numeral_simps)
  with a l show ?thesis
    by (simp add: is_byte_def)
qed

text \<open>
  Claim C6. A first byte with any of its top three bits (mask \<open>0xE0\<close>) set makes
  \<open>sc_decode_header\<close> raise the invalid-header error for that byte, and nothing beyond
  that first byte has been taken from the stream.
\<close>

theorem sc_decode_header_invalid:
  "head AND 0xe0 \<noteq> 0 \<Longrightarrow>
   sc_decode_header (head # stream) = (Inl (InvalidHeader head), stream)"
  by (simp add: sc_decode_header_def)

theorem sc_decode_header_invalid_witness:
  "(0x20 :: int) AND 0xe0 \<noteq> 0 \<and>
   sc_decode_header [0x20, 7, 9] = (Inl (InvalidHeader 0x20), [7, 9])"
  using sc_decode_header_invalid [of "0x20" "[7, 9]"] by simp

text \<open>
  Claim C10. For every length \<open>L\<close> in \<open>0..15\<close> and any \<open>L\<close> length bytes,
  \<open>sc_decode_header\<close> returns their exact little-endian value, for either endianness
  flag, and \<open>sc_stats\<close> reports that value unchanged. The value is bounded only by the
  fifteen bytes the nibble allows: it ranges up to \<open>2 ^ 120 - 1\<close>, which fifteen bytes
  \<open>0xFF\<close> reach, beyond the 64-bit range.
\<close>

theorem sc_decode_header_unbounded:
  assumes "length bs \<le> 15" and "\<forall>b\<in>set bs. is_byte b"
  shows "sc_decode_header (int (length bs) # bs @ rest) = (Inr (''little'', le_value bs), rest) \<and>
         sc_decode_header ((0x10 + int (length bs)) # bs @ rest) = (Inr (''big'', le_value bs), rest) \<and>
         sc_stats (int (length bs) # bs @ [0]) =
           Inr \<lparr>endian = ''little'', nbits = le_value bs, blocks = Map.empty\<rparr> \<and>
         0 \<le> le_value bs \<and> le_value bs \<le> 2 ^ 120 - 1 \<and>
         le_value (replicate 15 0xff) = 2 ^ 120 - 1"
proof -
  note nib = nibble_and [OF assms(1)]
  have rd: "read_n (int (length bs)) (bs @ rest') = (Inr (le_value bs), rest')" for rest'
    using assms(2) read_n_value [of "int (length bs)" "bs @ rest'"] by simp
  have little: "sc_decode_header (int (length bs) # bs @ rest') = (Inr (''little'', le_value bs), rest')"
    for rest'
    by (simp add: sc_decode_header_def nib rd)
  have big: "sc_decode_header ((0x10 + int (length bs)) # bs @ rest) = (Inr (''big'', le_value bs), rest)"
    by (simp add: sc_decode_header_def nib rd)
  have "sc_stats_loop [0] st = (Inr (), [], st)" for st
    by (simp add: sc_stats_loop.simps [of "[0]"] sc_decode_block_stop)
  then have scan: "sc_stats (int (length bs) # bs @ [0]) =
      Inr \<lparr>endian = ''little'', nbits = le_value bs, blocks = Map.empty\<rparr>"
    by (simp add: sc_stats_def little)
  have "\<forall>b\<in>set bs. 0 \<le> b"
    using assms(2) by (simp add: is_byte_def)
  then have lo: "0 \<le> le_value bs"
    unfolding le_value_def by (rule le_value_from_nonneg)
  have "le_value_from 0 bs + 2 ^ (8 * 0) \<le> 2 ^ (8 * (0 + length bs))"
    using assms(2) by (rule le_value_from_upper)
  moreover have "(2 :: int) ^ (8 * length bs) \<le> 2 ^ 120"
    using assms(1) by (intro power_increasing) simp_all
  ultimately have up: "le_value bs \<le> 2 ^ 120 - 1"
    by (simp add: le_value_def)
  have top: "le_value (replicate 15 0xff) = 2 ^ 120 - 1"
    by code_simp
  from little big scan lo up top show ?thesis
    by blast
qed

theorem sc_decode_header_unbounded_witness:
  "sc_stats [0x09, 0, 0, 0, 0, 0, 0, 0, 0, 1, 0] =
     Inr \<lparr>endian = ''little'', nbits = 2 ^ 64, blocks = Map.empty\<rparr> \<and>
   sc_stats (0x0f # replicate 15 0xff @ [0]) =
     Inr \<lparr>endian = ''little'', nbits = 2 ^ 120 - 1, blocks = Map.empty\<rparr> \<and>
   (2 ^ 64 - 1 :: int) < 2 ^ 120 - 1"
proof -
  have l: "length [0, 0, 0, 0, 0, 0, 0, 0, 1 :: int] \<le> 15"
    by simp
  have b: "\<forall>b\<in>set [0, 0, 0, 0, 0, 0, 0, 0, 1 :: int]. is_byte b"
    by (simp add: is_byte_def)
  have v: "le_value [0, 0, 0, 0, 0, 0, 0, 0, 1] = 2 ^ 64"
    by (simp add: le_value_def)
  have l': "length (replicate 15 (0xff :: int)) \<le> 15"
    by simp
  have b': "\<forall>b\<in>set (replicate 15 (0xff :: int)). is_byte b"
    by (simp add: is_byte_def)
  have "sc_stats [0x09, 0, 0, 0, 0, 0, 0, 0, 0, 1, 0] =
      Inr \<lparr>endian = ''little'', nbits = 2 ^ 64, blocks = Map.empty\<rparr>"
    using sc_decode_header_unbounded [OF l b, of "[]"] v by simp
  moreover have "sc_stats (0x0f # replicate 15 0xff @ [0]) =
      Inr \<lparr>endian = ''little'', nbits = 2 ^ 120 - 1, blocks = Map.empty\<rparr>"
    using sc_decode_header_unbounded [OF l' b', of "[]"] by simp
  ultimately show ?thesis
    by simp
qed

subsection \<open>The scanner\<close>

text \<open>
  Claim C8. When the header has been decoded and the block loop has ended, it has ended
  right behind a \<open>0x00\<close> stop byte. \<open>sc_stats\<close> then looks at what is left of the
  stream: if an item is left it fails with the assertion error of \<open>assert stop\<close>, and
  otherwise it returns the statistics. These hold the endianness and the bit count of the
  header, and for every block type the number of blocks of that type in the stream
  between the header and the stop byte.
\<close>

theorem sc_stats_after_stop:
  assumes "sc_decode_header stream = (Inr (e, n), stream1)"
      and "sc_stats_loop stream1 \<lparr>endian = e, nbits = n, blocks = Map.empty\<rparr> =
             (Inr u, stream2, st)"
  shows "(\<exists>blks. stream1 = blks @ 0 # stream2) \<and>
         (stream2 \<noteq> [] \<longrightarrow> sc_stats stream = Inl AssertionError) \<and>
         (stream2 = [] \<longrightarrow> sc_stats stream = Inr st) \<and>
         endian st = e \<and> nbits st = n \<and>
         (\<forall>t. counter_get (blocks st) t = int (count_list (block_types stream1) t))"
proof -
  from assms(2) have
    "(\<exists>blks. stream1 = blks @ 0 # stream2) \<and>
     endian st = endian \<lparr>endian = e, nbits = n, blocks = Map.empty\<rparr> \<and>
     nbits st = nbits \<lparr>endian = e, nbits = n, blocks = Map.empty\<rparr>"
    by (rule sc_stats_loop_returns)
  moreover have "sc_stats stream = (case stream2 of [] \<Rightarrow> Inr st | b # stream3 \<Rightarrow> Inl AssertionError)"
    using assms by (simp add: sc_stats_def)
  moreover have "counter_get (blocks st) t = int (count_list (block_types stream1) t)" for t
    using sc_stats_loop_counts [OF assms(2), of t] by (simp add: counter_get_def)
  ultimately show ?thesis
    by (simp split: list.splits)
qed

theorem sc_stats_after_stop_witness:
  "block_types [2, 255, 255, 0xa1, 5, 0xc2, 1, 3, 4, 1, 9, 0] = [0, 1, 2, 0] \<and>
   map_sum id (\<lambda>st. (endian st, nbits st, map (counter_get (blocks st)) [0, 1, 2, 3, 4]))
     (sc_stats [0x01, 16, 2, 255, 255, 0xa1, 5, 0xc2, 1, 3, 4, 1, 9, 0]) =
     Inr (''little'', 16, [2, 1, 1, 0, 0]) \<and>
   sc_stats [0x01, 16, 2, 255, 255, 0xa1, 5, 0xc2, 1, 3, 4, 1, 9, 0, 7] = Inl AssertionError"
proof -
  let ?st0 = "\<lparr>endian = ''little'', nbits = 16, blocks = Map.empty\<rparr>"
  let ?c1 = "counter_incr Map.empty 0"
  let ?c2 = "counter_incr ?c1 1"
  let ?c3 = "counter_incr ?c2 2"
  let ?c4 = "counter_incr ?c3 0"
  let ?st1 = "\<lparr>endian = ''little'', nbits = 16, blocks = ?c1\<rparr>"
  let ?st2 = "\<lparr>endian = ''little'', nbits = 16, blocks = ?c2\<rparr>"
  let ?st3 = "\<lparr>endian = ''little'', nbits = 16, blocks = ?c3\<rparr>"
  let ?st4 = "\<lparr>endian = ''little'', nbits = 16, blocks = ?c4\<rparr>"
  have h: "sc_decode_header (0x01 # 16 # rest) = (Inr (''little'', 16), rest)" for rest
    by (simp add: sc_decode_header_def read_n_def)
  have b1: "sc_decode_block (2 # 255 # 255 # rest) ?st0 = (Inr True, rest, ?st1)" for rest
    by (simp add: sc_decode_block_raw)
  have b2: "sc_decode_block (0xa1 # 5 # rest) ?st1 = (Inr True, rest, ?st2)" for rest
    by (simp add: sc_decode_block_pos1)
  have b3: "sc_decode_block (0xc2 # 1 # 3 # 4 # rest) ?st2 = (Inr True, rest, ?st3)" for rest
    using sc_decode_block_posn [of "0xc2" 1 "3 # 4 # rest" ?st2] by (simp add: is_byte_def)
  have b4: "sc_decode_block (1 # 9 # rest) ?st3 = (Inr True, rest, ?st4)" for rest
    by (simp add: sc_decode_block_raw)
  have l: "sc_stats_loop (2 # 255 # 255 # 0xa1 # 5 # 0xc2 # 1 # 3 # 4 # 1 # 9 # 0 # rest) ?st0 =
      (Inr (), rest, ?st4)" for rest
    by (simp add: sc_stats_loop.simps [of "2 # _"] sc_stats_loop.simps [of "0xa1 # _"]
          sc_stats_loop.simps [of "0xc2 # _"] sc_stats_loop.simps [of "1 # _"]
          sc_stats_loop.simps [of "0 # _"] b1 b2 b3 b4 sc_decode_block_stop)
  have t: "block_types [2, 255, 255, 0xa1, 5, 0xc2, 1, 3, 4, 1, 9, 0] = [0, 1, 2, 0]"
    by (simp add: is_block_head_def block_type_def payload_size_def)
  have r1: "sc_stats [0x01, 16, 2, 255, 255, 0xa1, 5, 0xc2, 1, 3, 4, 1, 9, 0] = Inr ?st4"
    using sc_stats_after_stop [OF h l, of "[]"] by blast
  have r2: "sc_stats [0x01, 16, 2, 255, 255, 0xa1, 5, 0xc2, 1, 3, 4, 1, 9, 0, 7] = Inl AssertionError"
    using sc_stats_after_stop [OF h l, of "[7]"] by blast
  have c: "map (counter_get ?c4) [0, 1, 2, 3, 4] = [2, 1, 1, 0, 0]"
    by (simp add: counter_get_def counter_incr_def)
  show ?thesis
    using t r1 r2 c by simp
qed

subsection \<open>read_n on byte streams\<close>

text \<open>
  Claim C9. When every item of the stream is a byte value in \<open>0..255\<close>, the value that
  the loop of \<open>read_n\<close> accumulates is nonnegative, so \<open>read_n\<close> never raises its
  "negative value" error; when the stream holds at least \<open>n\<close> items it returns the
  little-endian integer of the first \<open>n\<close> and leaves the rest, and otherwise it ends in
  \<open>StopIteration\<close>.
\<close>

theorem read_n_bytes:
  assumes "\<forall>b\<in>set stream. is_byte b"
  shows "(\<forall>v stream'. read_n_loop (nat n) 0 0 stream = (Inr v, stream') \<longrightarrow> 0 \<le> v) \<and>
         \<not> is_NegativeValue (fst (read_n n stream)) \<and>
         (nat n \<le> length stream \<longrightarrow>
            read_n n stream = (Inr (le_value (take (nat n) stream)), drop (nat n) stream)) \<and>
         (length stream < nat n \<longrightarrow> read_n n stream = (Inl StopIteration, []))"
proof -
  have nonneg: "\<forall>b\<in>set stream. 0 \<le> b"
    using assms by (simp add: is_byte_def)
  have acc: "0 \<le> v" if "read_n_loop (nat n) 0 0 stream = (Inr v, stream')" for v stream'
    using that nonneg by (rule read_n_loop_nonneg) simp
  have "\<not> is_NegativeValue (fst (read_n n stream))"
    using acc by (auto simp: read_n_def split: prod.splits sum.splits dest: read_n_loop_error)
  moreover have "read_n n stream = (Inr (le_value (take (nat n) stream)), drop (nat n) stream)"
    if "nat n \<le> length stream"
    using that assms by (intro read_n_value) (auto dest: in_set_takeD)
  ultimately show ?thesis
    using acc by (simp add: read_n_short)
qed

theorem read_n_bytes_witness:
  "is_byte 0x10 \<and> is_byte 0x27 \<and> is_byte 9 \<and>
   \<not> is_NegativeValue (fst (read_n 2 [0x10, 0x27, 9])) \<and>
   read_n 2 [0x10, 0x27, 9] = (Inr 10000, [9]) \<and>
   le_value [0x10, 0x27] = 10000 \<and>
   read_n 4 [0x10, 0x27, 9] = (Inl StopIteration, [])"
proof -
  have b: "\<forall>b\<in>set [0x10, 0x27, 9 :: int]. is_byte b"
    by (simp add: is_byte_def)
  have v: "le_value [0x10, 0x27] = 10000"
    by (simp add: le_value_def)
  have "\<not> is_NegativeValue (fst (read_n 2 [0x10, 0x27, 9]))"
    using read_n_bytes [OF b, of 2] by blast
  moreover have "read_n 2 [0x10, 0x27, 9] = (Inr 10000, [9])"
    using read_n_bytes [OF b, of 2] v by simp
  moreover have "read_n 4 [0x10, 0x27, 9] = (Inl StopIteration, [])"
    using read_n_bytes [OF b, of 4] by simp
  ultimately show ?thesis
    using v by (simp add: is_byte_def)
qed

end
